theory Spec2Isabelle
  imports Main
begin

section \<open>The circular replay buffer of \<open>fabricrl/data/buffers.py\<close>\<close>

text \<open>
  The class \<open>ReplayBuffer\<close> keeps a named-field table (a \<open>TensorDict\<close> of batch shape
  \<open>[buffer_size, n_envs]\<close>), a write cursor \<open>_pos\<close> and a flag \<open>_full\<close>. Its methods are
  embedded as functions on a record of that state. Every \<open>raise\<close> of the source, and every
  failure of the container and of the random generator it calls, is a value \<open>Inl e\<close>: the
  exception that leaves the call. \<open>Inl e\<close> says nothing about what the container had written
  when it raised.
\<close>

subsection \<open>Exceptions\<close>

text \<open>
  \<open>TypeError\<close>, \<open>ValueError\<close>, \<open>IndexError\<close>, \<open>KeyError\<close> and \<open>ZeroDivisionError\<close> are the Python
  classes of that name. The class \<open>RuntimeError\<close> is split by what raised it: \<open>ShapeError\<close> is
  the source's own (wrong number of batch dimensions) and the container's (the batch shape
  of the value cannot be brought to that of the destination); \<open>EmptyRangeError\<close> is that of
  \<open>torch.randint\<close> on an empty range \<open>from >= to\<close>; \<open>GatherError\<close> is that of \<open>torch.gather\<close> on
  an index outside the tensor.
\<close>

datatype error =
    TypeError
  | ShapeError
  | ValueError
  | EmptyRangeError
  | GatherError
  | IndexError
  | KeyError
  | ZeroDivisionError

subsection \<open>The named-field table\<close>

text \<open>
  A stored field has shape \<open>[C, E, ...]\<close>: a list of \<open>C\<close> rows, each a list of \<open>E\<close> cells. A cell
  (type \<open>'a\<close>) is whatever the trailing dimensions hold. A \<open>TensorDict\<close> is its batch shape and
  its tensors by name.
\<close>

type_synonym 'a tensor = "'a list list"

record 'a tensordict =
  shape :: "nat list"
  tensors :: "string \<rightharpoonup> 'a tensor"

text \<open>The class invariant of a \<open>TensorDict\<close> of two batch dimensions: every field has the batch shape.\<close>

definition has_shape :: "nat list \<Rightarrow> 'a tensor \<Rightarrow> bool" where
  "has_shape sh t \<longleftrightarrow>
     length sh = 2 \<and> length t = sh ! 0 \<and> (\<forall>row \<in> set t. length row = sh ! 1)"

definition wf_td :: "'a tensordict \<Rightarrow> bool" where
  "wf_td td \<longleftrightarrow> (\<forall>k v. tensors td k = Some v \<longrightarrow> has_shape (shape td) v)"

text \<open>
  A key as Python passes it: a string, the one-element tuple \<open>(s,)\<close> (which the container reads
  as the key \<open>s\<close>), or an object that is neither a string nor a tuple (an integer, \<open>None\<close>).
  Longer tuples address nested tables, which are not represented here.
\<close>

datatype key = KStr string | KTuple1 string | KOther

text \<open>\<open>TensorDict.get(key)\<close> for a string key.\<close>

definition td_get :: "'a tensordict \<Rightarrow> string \<Rightarrow> error + 'a tensor" where
  "td_get td k = (case tensors td k of None \<Rightarrow> Inl KeyError | Some v \<Rightarrow> Inr v)"

text \<open>
  \<open>TensorDict.set(key, value)\<close>: a tuple key is unravelled, a key that is neither a string nor
  a tuple is refused with a \<open>ValueError\<close>, and the value must carry the table's batch shape.
\<close>

definition td_set :: "'a tensordict \<Rightarrow> key \<Rightarrow> 'a tensor \<Rightarrow> error + 'a tensordict" where
  "td_set td k t =
     (case k of
        KOther \<Rightarrow> Inl ValueError
      | KStr s \<Rightarrow>
          if has_shape (shape td) t then Inr (td\<lparr>tensors := (tensors td)(s \<mapsto> t)\<rparr>)
          else Inl ShapeError
      | KTuple1 s \<Rightarrow>
          if has_shape (shape td) t then Inr (td\<lparr>tensors := (tensors td)(s \<mapsto> t)\<rparr>)
          else Inl ShapeError)"

text \<open>Row-wise assignment \<open>t[idxes[m]] = rows[m]\<close>, in the order of \<open>idxes\<close>.\<close>

fun write_rows :: "nat list \<Rightarrow> 'a list list \<Rightarrow> 'a tensor \<Rightarrow> 'a tensor" where
  "write_rows [] rs t = t"
| "write_rows (i # is) [] t = t"
| "write_rows (i # is) (r # rs) t = write_rows is rs (t[i := r])"

definition zeros :: "nat list \<Rightarrow> ('a::zero) tensor" where
  "zeros sh = replicate (sh ! 0) (replicate (sh ! 1) 0)"

text \<open>
  Broadcasting, as \<open>expand\<close> does it for shapes of the same rank: a dimension of the source
  must be that of the target, or 1. The single row, or the single cell of a row, is then
  repeated.
\<close>

definition expandable :: "nat list \<Rightarrow> nat list \<Rightarrow> bool" where
  "expandable src dst \<longleftrightarrow>
     length src = length dst \<and> (\<forall>(m, n) \<in> set (zip src dst). m = n \<or> m = 1)"

definition expand :: "nat list \<Rightarrow> 'a tensor \<Rightarrow> 'a tensor" where
  "expand dst t =
     map (\<lambda>row. if length row = dst ! 1 then row else replicate (dst ! 1) (hd row))
         (if length t = dst ! 0 then t else replicate (dst ! 0) (hd t))"

definition td_expand :: "'a tensordict \<Rightarrow> nat list \<Rightarrow> 'a tensordict" where
  "td_expand td dst = \<lparr>shape = dst, tensors = (\<lambda>k. map_option (expand dst) (tensors td k))\<rparr>"

text \<open>
  The indexed assignment \<open>td[idxes, :] = value\<close>, in the container's order. First the batch
  shape of the value is compared with that of the indexed destination, \<open>[len(idxes), E]\<close>: a
  value of another shape is expanded to it, and refused if it cannot be. Then the rows are
  written field by field, which raises when an index lies outside the table, and also when
  the index list is empty (\<open>torch.tensor\<close> of an empty list or range is a tensor of floats,
  which is no index). A field of the value that the table does not have yet is created,
  filled with zeros, and written at the indices.

  The container is not part of the repository. Two things are left out of this model of
  it: the rows that the assignment had written when it raised the \<open>IndexError\<close>, and a value
  without any field, which is treated like every other value.
\<close>

definition td_setitem :: "('a::zero) tensordict \<Rightarrow> nat list \<Rightarrow> 'a tensordict \<Rightarrow> error + 'a tensordict" where
  "td_setitem td idxes val =
     (let indexed_bs = length idxes # tl (shape td) in
      case (if shape val = indexed_bs then Inr val
            else if expandable (shape val) indexed_bs then Inr (td_expand val indexed_bs)
            else Inl ShapeError) of
        Inl e \<Rightarrow> Inl e
      | Inr v \<Rightarrow>
          if idxes = [] \<or> (\<exists>i \<in> set idxes. hd (shape td) \<le> i) then Inl IndexError
          else Inr (td\<lparr>tensors := (\<lambda>k.
                 case tensors v k of
                   None \<Rightarrow> tensors td k
                 | Some rows \<Rightarrow> Some (write_rows idxes rows
                               (case tensors td k of None \<Rightarrow> zeros (shape td) | Some old \<Rightarrow> old)))\<rparr>))"

text \<open>
  Reading a tensor at paired indices: entry \<open>(i, j)\<close> of the result is \<open>t[rws[i][j]][cols[j]]\<close>.
  This is both \<open>torch.gather(t, 0, rws)\<close> (with \<open>cols = arange(E)\<close>) and the advanced indexing
  \<open>t[rws, cols]\<close>.
\<close>

definition pick :: "'a tensor \<Rightarrow> nat list list \<Rightarrow> nat list \<Rightarrow> 'a tensor" where
  "pick t rws cols = map (\<lambda>row. map (\<lambda>(r, c). t ! r ! c) (zip row cols)) rws"

definition in_range :: "'a tensor \<Rightarrow> nat list list \<Rightarrow> nat list \<Rightarrow> bool" where
  "in_range t rws cols \<longleftrightarrow>
     (\<forall>row \<in> set rws. \<forall>(r, c) \<in> set (zip row cols). r < length t \<and> c < length (t ! r))"

definition index_pairs :: "'a tensor \<Rightarrow> nat list list \<Rightarrow> nat list \<Rightarrow> error + 'a tensor" where
  "index_pairs t rws cols = (if in_range t rws cols then Inr (pick t rws cols) else Inl IndexError)"

text \<open>\<open>torch.gather(td, dim=0, index)\<close> on every field; the result has the shape of the index.\<close>

definition td_gather :: "'a tensordict \<Rightarrow> nat list list \<Rightarrow> nat \<Rightarrow> error + 'a tensordict" where
  "td_gather td index ncols =
     (if \<exists>row \<in> set index. \<exists>r \<in> set row. hd (shape td) \<le> r then Inl GatherError
      else Inr \<lparr>shape = [length index, ncols],
                tensors = (\<lambda>k. map_option (\<lambda>t. pick t index [0..<ncols]) (tensors td k))\<rparr>)"

text \<open>
  \<open>torch.randint(low, high, size=(nrows, ncols))\<close>. The generator is a parameter: \<open>rnd i j\<close> is
  any natural number, reduced into \<open>[low, high)\<close>, so that every matrix of that range is the
  result for some \<open>rnd\<close>. An empty range raises.
\<close>

definition randint :: "nat \<Rightarrow> nat \<Rightarrow> nat \<Rightarrow> nat \<Rightarrow> (nat \<Rightarrow> nat \<Rightarrow> nat) \<Rightarrow> error + nat list list" where
  "randint low high nrows ncols rnd =
     (if high \<le> low then Inl EmptyRangeError
      else Inr (map (\<lambda>i. map (\<lambda>j. low + rnd i j mod (high - low)) [0..<ncols]) [0..<nrows]))"

subsection \<open>The buffer\<close>

record 'a replay_buffer =
  buffer_size :: nat
  n_envs :: nat
  buf :: "'a tensordict"
  pos :: nat
  full :: bool

text \<open>\<open>__init__(buffer_size, n_envs)\<close>; the device does not enter any computation below.\<close>

definition init :: "nat \<Rightarrow> nat \<Rightarrow> 'a replay_buffer" where
  "init C E =
     \<lparr>buffer_size = C, n_envs = E,
      buf = \<lparr>shape = [C, E], tensors = Map.empty\<rparr>,
      pos = 0, full = False\<rparr>"

text \<open>\<open>__len__\<close>.\<close>

definition len :: "'a replay_buffer \<Rightarrow> nat" where
  "len self = buffer_size self"

text \<open>What \<open>add\<close> may be handed: a table, another buffer, or any other object.\<close>

datatype 'a data =
    TensorDictData "'a tensordict"
  | ReplayBufferData "'a replay_buffer"
  | OtherData

definition as_tensordict :: "'a data \<Rightarrow> error + 'a tensordict" where
  "as_tensordict d =
     (case d of
        ReplayBufferData rb \<Rightarrow> Inr (buf rb)
      | TensorDictData td \<Rightarrow> Inr td
      | OtherData \<Rightarrow> Inl TypeError)"

text \<open>The index list of \<open>add\<close>, lines 84 to 92, as the pair \<open>(next_pos, idxes)\<close>.\<close>

definition add_idxes :: "nat \<Rightarrow> nat \<Rightarrow> nat \<Rightarrow> nat \<times> nat list" where
  "add_idxes C p data_len =
     (let next_pos0 = (p + data_len) mod C;
          next_pos = (if p = 0 \<and> next_pos0 = 0 then data_len else next_pos0)
      in (next_pos,
          if next_pos < p then [p..<C] @ [0..<next_pos] else [p..<next_pos]))"

definition add :: "('a::zero) replay_buffer \<Rightarrow> 'a data \<Rightarrow> error + 'a replay_buffer" where
  "add self d =
     (case as_tensordict d of
        Inl e \<Rightarrow> Inl e
      | Inr dat \<Rightarrow>
          if length (shape dat) \<noteq> 2 then Inl ShapeError
          else
            let data_len = shape dat ! 0 in
            if buffer_size self = 0 then Inl ZeroDivisionError
            else
              let (next_pos, idxes) = add_idxes (buffer_size self) (pos self) data_len in
              (case td_setitem (buf self) idxes dat of
                 Inl e \<Rightarrow> Inl e
               | Inr b \<Rightarrow>
                   Inr (self\<lparr>buf := b,
                             full := (if buffer_size self \<le> pos self + data_len then True else full self),
                             pos := next_pos\<rparr>)))"

text \<open>A sequence of \<open>add\<close> calls; the first exception ends it.\<close>

fun adds :: "('a::zero) replay_buffer \<Rightarrow> 'a data list \<Rightarrow> error + 'a replay_buffer" where
  "adds self [] = Inr self"
| "adds self (d # ds) = (case add self d of Inl e \<Rightarrow> Inl e | Inr self' \<Rightarrow> adds self' ds)"

text \<open>The number of timesteps a payload carries, \<open>data.shape[0]\<close>.\<close>

definition data_len :: "'a data \<Rightarrow> nat" where
  "data_len d = (case as_tensordict d of Inl e \<Rightarrow> 0 | Inr dat \<Rightarrow> shape dat ! 0)"

definition written :: "'a data list \<Rightarrow> nat" where
  "written ds = sum_list (map data_len ds)"

text \<open>The row indices drawn by \<open>sample\<close>, lines 111 to 122.\<close>

definition batch_idxes :: "'a replay_buffer \<Rightarrow> int \<Rightarrow> (nat \<Rightarrow> nat \<Rightarrow> nat) \<Rightarrow> error + nat list list" where
  "batch_idxes self batch_size rnd =
     (if batch_size \<le> 0 then Inl ValueError
      else if int (shape (buf self) ! 0) < batch_size then Inl ValueError
      else if full self then
        (case randint 1 (buffer_size self) (nat batch_size) (n_envs self) rnd of
           Inl e \<Rightarrow> Inl e
         | Inr offs \<Rightarrow> Inr (map (map (\<lambda>x. (x + pos self) mod buffer_size self)) offs))
      else randint 0 (pos self) (nat batch_size) (n_envs self) rnd)"

text \<open>\<open>_get_samples\<close>: the gathered copy of every field, and \<open>next_obs\<close> read one row further.\<close>

definition get_samples :: "'a replay_buffer \<Rightarrow> nat list list \<Rightarrow> error + 'a tensordict" where
  "get_samples self idxes =
     (case td_gather (buf self) idxes (n_envs self) of
        Inl e \<Rightarrow> Inl e
      | Inr b \<Rightarrow>
          (case td_get (buf self) ''observations'' of
             Inl e \<Rightarrow> Inl e
           | Inr obs \<Rightarrow>
               if buffer_size self = 0 then Inl ZeroDivisionError
               else
                 (case index_pairs obs (map (map (\<lambda>r. (r + 1) mod buffer_size self)) idxes)
                         [0..<n_envs self] of
                    Inl e \<Rightarrow> Inl e
                  | Inr nxt \<Rightarrow> Inr (b\<lparr>tensors := (tensors b)(''next_obs'' \<mapsto> nxt)\<rparr>))))"

text \<open>
  \<open>sample\<close> assigns to no attribute of the buffer: it returns its result next to the state it
  was called in.
\<close>

definition sample ::
  "'a replay_buffer \<Rightarrow> int \<Rightarrow> (nat \<Rightarrow> nat \<Rightarrow> nat) \<Rightarrow> (error + 'a tensordict) \<times> 'a replay_buffer" where
  "sample self batch_size rnd =
     ((case batch_idxes self batch_size rnd of
         Inl e \<Rightarrow> Inl e
       | Inr idxes \<Rightarrow> get_samples self idxes),
      self)"

text \<open>\<open>__getitem__\<close> checks the key; \<open>__setitem__\<close> hands it to the container as it is.\<close>

definition getitem :: "'a replay_buffer \<Rightarrow> key \<Rightarrow> (error + 'a tensor) \<times> 'a replay_buffer" where
  "getitem self k =
     ((case k of KStr s \<Rightarrow> td_get (buf self) s | _ \<Rightarrow> Inl TypeError), self)"

definition setitem :: "'a replay_buffer \<Rightarrow> key \<Rightarrow> 'a tensor \<Rightarrow> error + 'a replay_buffer" where
  "setitem self k t =
     (case td_set (buf self) k t of
        Inl e \<Rightarrow> Inl e
      | Inr b \<Rightarrow> Inr (self\<lparr>buf := b\<rparr>))"

subsection \<open>The state invariant and example payloads\<close>

text \<open>
  What every state reached from \<open>init C E\<close> by successful \<open>add\<close> calls satisfies, \<open>n\<close> being the
  number of timesteps written so far: the table keeps its batch shape, the cursor is at most
  \<open>C\<close> and congruent to \<open>n\<close>, and while the flag is unset the cursor is \<open>n\<close> itself.
\<close>

definition invariant :: "nat \<Rightarrow> nat \<Rightarrow> 'a replay_buffer \<Rightarrow> nat \<Rightarrow> bool" where
  "invariant C E b n \<longleftrightarrow>
     0 < C \<and> buffer_size b = C \<and> n_envs b = E \<and> shape (buf b) = [C, E] \<and> pos b \<le> C \<and>
     pos b mod C = n mod C \<and> (if full b then C \<le> n else pos b = n \<and> n < C)"

text \<open>A payload of batch shape \<open>[T, E]\<close> with the single field \<open>observations\<close>.\<close>

definition obs_payload :: "nat \<Rightarrow> nat \<Rightarrow> 'a tensor \<Rightarrow> 'a data" where
  "obs_payload T E rows =
     TensorDictData \<lparr>shape = [T, E], tensors = [''observations'' \<mapsto> rows]\<rparr>"

text \<open>The generator that returns its row number at every position.\<close>

definition row_number :: "nat \<Rightarrow> nat \<Rightarrow> nat" where
  "row_number i j = i"

text \<open>
  The scenario of capacity 4 with one environment: the rows 0, 1, 2, 3 are added one at a time,
  then the row 4.
\<close>

definition scenario :: "int replay_buffer" where
  "scenario =
     projr (adds (init 4 1)
       [obs_payload 1 1 [[0]], obs_payload 1 1 [[1]], obs_payload 1 1 [[2]],
        obs_payload 1 1 [[3]], obs_payload 1 1 [[4]]])"

text \<open>
  Every stored field has \<open>C\<close> rows; and a field as the indexed assignment finds it, zeros
  where the table does not have it yet.
\<close>

definition rows_ok :: "nat \<Rightarrow> 'a replay_buffer \<Rightarrow> bool" where
  "rows_ok C b \<longleftrightarrow> (\<forall>f t. tensors (buf b) f = Some t \<longrightarrow> length t = C)"

definition stored :: "('a::zero) replay_buffer \<Rightarrow> string \<Rightarrow> 'a tensor" where
  "stored b f = (case tensors (buf b) f of None \<Rightarrow> zeros (shape (buf b)) | Some t \<Rightarrow> t)"

text \<open>The buffer of capacity 4 after a single write of four rows.\<close>

definition filled :: "int replay_buffer" where
  "filled = projr (adds (init 4 1) [obs_payload 4 1 [[0], [1], [2], [3]]])"

section \<open>Properties\<close>

subsection \<open>Row-wise assignment\<close>

lemma write_rows_length [simp]: "length (write_rows is rs t) = length t"
  by (induction "is" rs t rule: write_rows.induct) simp_all

lemma write_rows_other: "j \<notin> set is \<Longrightarrow> write_rows is rs t ! j = t ! j"
  by (induction "is" rs t rule: write_rows.induct) (auto simp: nth_list_update)

lemma write_rows_at:
  "distinct is \<Longrightarrow> length rs = length is \<Longrightarrow> m < length is \<Longrightarrow> is ! m < length t
     \<Longrightarrow> write_rows is rs t ! (is ! m) = rs ! m"
proof (induction "is" rs t arbitrary: m rule: write_rows.induct)
  case (3 i "is" r rs t)
  show ?case
  proof (cases m)
    case 0
    with 3 show ?thesis by (simp add: write_rows_other)
  next
    case (Suc m')
    with 3 show ?thesis by simp
  qed
qed simp_all

subsection \<open>What a successful \<open>add\<close> did\<close>

lemma add_idxes_cases:
  assumes C: "0 < C" and idx: "add_idxes C p T = (np, idxes)"
    and bnd: "\<forall>i \<in> set idxes. i < C"
  shows "np \<le> C \<and> np mod C = (p + T) mod C \<and> (p + T < C \<longrightarrow> np = p + T)"
proof (cases "p = 0 \<and> (p + T) mod C = 0")
  case True
  then have np: "np = T" and ix: "idxes = [0..<T]"
    using idx by (auto simp: add_idxes_def Let_def)
  have "T \<le> C"
  proof (cases T)
    case (Suc k)
    then have "k \<in> set idxes" using ix by simp
    then show ?thesis using bnd Suc by auto
  qed simp
  with True np C show ?thesis by auto
next
  case False
  then have "np = (p + T) mod C"
    using idx by (auto simp: add_idxes_def Let_def)
  then show ?thesis using C by simp
qed

lemma expandable_pair:
  "expandable [T, E'] [n, E] \<longleftrightarrow> (T = n \<or> T = 1) \<and> (E' = E \<or> E' = 1)"
  by (simp add: expandable_def)

lemma td_setitem_Inr:
  "td_setitem td idxes val = Inr td' \<Longrightarrow>
     idxes \<noteq> [] \<and> (\<forall>i \<in> set idxes. i < hd (shape td)) \<and> shape td' = shape td"
  by (auto simp: td_setitem_def Let_def split: if_splits sum.splits)

lemma td_setitem_tensors:
  assumes "td_setitem td idxes val = Inr td'"
  obtains v :: "('a::zero) tensordict" where
    "tensors td' = (\<lambda>k. case tensors v k of
        None \<Rightarrow> tensors td k
      | Some rows \<Rightarrow> Some (write_rows idxes rows
                     (case tensors td k of None \<Rightarrow> zeros (shape td) | Some old \<Rightarrow> old)))"
proof (cases "shape val = length idxes # tl (shape td)")
  case True
  with assms have "tensors td' = (\<lambda>k. case tensors val k of
        None \<Rightarrow> tensors td k
      | Some rows \<Rightarrow> Some (write_rows idxes rows
                     (case tensors td k of None \<Rightarrow> zeros (shape td) | Some old \<Rightarrow> old)))"
    by (auto simp: td_setitem_def Let_def split: if_splits)
  then show ?thesis by (rule that [of val])
next
  case False
  with assms have "tensors td' =
      (\<lambda>k. case tensors (td_expand val (length idxes # tl (shape td))) k of
        None \<Rightarrow> tensors td k
      | Some rows \<Rightarrow> Some (write_rows idxes rows
                     (case tensors td k of None \<Rightarrow> zeros (shape td) | Some old \<Rightarrow> old)))"
    by (auto simp: td_setitem_def Let_def split: if_splits)
  then show ?thesis by (rule that [of "td_expand val (length idxes # tl (shape td))"])
qed

lemma add_Inr:
  assumes "add self d = Inr self'"
  obtains dat np idxes b where
    "as_tensordict d = Inr dat" "length (shape dat) = 2" "0 < buffer_size self"
    "add_idxes (buffer_size self) (pos self) (shape dat ! 0) = (np, idxes)"
    "td_setitem (buf self) idxes dat = Inr b"
    "self' = self\<lparr>buf := b, full := (buffer_size self \<le> pos self + shape dat ! 0 \<or> full self), pos := np\<rparr>"
  using assms
  by (auto simp: add_def Let_def split: sum.splits if_splits prod.splits)

lemma invariant_add:
  assumes J: "invariant C E b n" and add: "add b d = Inr b'"
  shows "invariant C E b' (n + data_len d)"
proof -
  from add obtain dat np idxes tb where
    d: "as_tensordict d = Inr dat" and rk: "length (shape dat) = 2"
    and ix: "add_idxes (buffer_size b) (pos b) (shape dat ! 0) = (np, idxes)"
    and st: "td_setitem (buf b) idxes dat = Inr tb"
    and b': "b' = b\<lparr>buf := tb, full := (buffer_size b \<le> pos b + shape dat ! 0 \<or> full b), pos := np\<rparr>"
    by (rule add_Inr)
  let ?T = "shape dat ! 0"
  have T: "data_len d = ?T" using d by (simp add: data_len_def)
  have C: "0 < C" "buffer_size b = C" "shape (buf b) = [C, E]" using J by (simp_all add: invariant_def)
  from td_setitem_Inr [OF st] C have bnd: "\<forall>i \<in> set idxes. i < C" and sh: "shape tb = [C, E]"
    by auto
  note f = add_idxes_cases [OF C(1) ix [unfolded C] bnd]
  have "pos b mod C = n mod C" using J by (simp add: invariant_def)
  then have m: "(pos b + ?T) mod C = (n + ?T) mod C" by (rule mod_add_cong) simp
  show ?thesis
    using J f m sh unfolding invariant_def b' T
    by (auto split: if_splits)
qed


subsection \<open>Sequences of \<open>add\<close> calls\<close>

lemma invariant_init: "0 < C \<Longrightarrow> invariant C E (init C E) 0"
  by (simp add: invariant_def init_def)

lemma written_Cons: "written (d # ds) = data_len d + written ds"
  by (simp add: written_def)

lemma invariant_adds:
  "invariant C E b n \<Longrightarrow> adds b ds = Inr b' \<Longrightarrow> invariant C E b' (n + written ds)"
proof (induction ds arbitrary: b n)
  case Nil
  then show ?case by (simp add: written_def)
next
  case (Cons d ds)
  from Cons.prems(2) obtain b1 where a: "add b d = Inr b1" and r: "adds b1 ds = Inr b'"
    by (auto split: sum.splits)
  from invariant_add [OF Cons.prems(1) a] have "invariant C E b1 (n + data_len d)" .
  from Cons.IH [OF this r] show ?case by (simp add: written_Cons add.assoc)
qed

lemma add_capacity_pos: "add b d = Inr b' \<Longrightarrow> 0 < buffer_size b"
  by (erule add_Inr)

lemma adds_init_invariant:
  assumes "adds (init C E) ds = Inr b" "ds \<noteq> []"
  shows "invariant C E b (written ds)"
proof -
  from assms obtain d ds' b1 where "ds = d # ds'" "add (init C E) d = Inr b1"
    by (cases ds) (auto split: sum.splits)
  then have "0 < C" using add_capacity_pos [of "init C E" d b1] by (simp add: init_def)
  from invariant_adds [OF invariant_init [OF this] assms(1)] show ?thesis by simp
qed

lemma add_keeps_full: "add b d = Inr b' \<Longrightarrow> full b \<Longrightarrow> full b'"
  by (erule add_Inr) simp

lemma add_buffer_size: "add b d = Inr b' \<Longrightarrow> buffer_size b' = buffer_size b"
  by (erule add_Inr) simp

lemma adds_buffer_size: "adds b ds = Inr b' \<Longrightarrow> buffer_size b' = buffer_size b"
  by (induction ds arbitrary: b) (auto split: sum.splits dest: add_buffer_size)

subsection \<open>The flag \<open>full\<close>\<close>

text \<open>
  Claim C3. After a non-empty sequence of successful \<open>add\<close> calls on a fresh buffer, \<open>full\<close> is
  set exactly if the timesteps written so far are at least the capacity; and a successful
  \<open>add\<close> on a buffer whose flag is set leaves it set.
\<close>

theorem full_iff_written:
  assumes "adds (init C E) ds = Inr b" and "ds \<noteq> []"
  shows "(full b \<longleftrightarrow> C \<le> written ds) \<and> (\<forall>d b'. add b d = Inr b' \<longrightarrow> full b \<longrightarrow> full b')"
proof
  from adds_init_invariant [OF assms] show "full b \<longleftrightarrow> C \<le> written ds"
    by (auto simp: invariant_def split: if_splits)
  show "\<forall>d b'. add b d = Inr b' \<longrightarrow> full b \<longrightarrow> full b'"
    by (blast intro: add_keeps_full)
qed

theorem full_iff_written_witness:
  "\<not> isl (adds (init 2 1) [obs_payload 1 1 [[0::int]], obs_payload 1 1 [[1]]])
   \<and> full (projr (adds (init 2 1) [obs_payload 1 1 [[0::int]], obs_payload 1 1 [[1]]]))
   \<and> (2::nat) \<le> written [obs_payload 1 1 [[0::int]], obs_payload 1 1 [[1]]]"
proof -
  let ?ds = "[obs_payload 1 1 [[0::int]], obs_payload 1 1 [[1]]]"
  have n: "\<not> isl (adds (init 2 1) ?ds)" by code_simp
  then have e: "adds (init 2 1) ?ds = Inr (projr (adds (init 2 1) ?ds))" by simp
  have w: "(2::nat) \<le> written ?ds" by code_simp
  from full_iff_written [OF e] w n show ?thesis by simp
qed

subsection \<open>The write cursor\<close>




subsection \<open>The length\<close>

text \<open>
  Claim C10. \<open>len\<close> is the capacity given at construction, whatever has been written since.
\<close>

theorem len_is_capacity:
  assumes "adds (init C E) ds = Inr b"
  shows "len b = C"
  using adds_buffer_size [OF assms] by (simp add: len_def init_def)

theorem len_is_capacity_witness:
  "\<not> isl (adds (init 4 1) [obs_payload 1 1 [[0::int]]])
   \<and> len (projr (adds (init 4 1) [obs_payload 1 1 [[0::int]]])) = 4"
proof -
  let ?ds = "[obs_payload 1 1 [[0::int]]]"
  have n: "\<not> isl (adds (init 4 1) ?ds)" by code_simp
  then have e: "adds (init 4 1) ?ds = Inr (projr (adds (init 4 1) ?ds))" by simp
  from len_is_capacity [OF e] n show ?thesis by simp
qed


subsection \<open>The indices drawn by \<open>sample\<close>\<close>

lemma randint_Inr:
  assumes "randint low high nrows ncols rnd = Inr m"
  shows "length m = nrows \<and> (\<forall>row \<in> set m. length row = ncols \<and> (\<forall>r \<in> set row. low \<le> r \<and> r < high))"
proof -
  from assms have lt: "low < high"
    and m: "m = map (\<lambda>i. map (\<lambda>j. low + rnd i j mod (high - low)) [0..<ncols]) [0..<nrows]"
    by (auto simp: randint_def split: if_splits)
  have "low + x mod (high - low) < high" for x
  proof -
    have "x mod (high - low) < high - low" using lt by simp
    then show ?thesis by simp
  qed
  then show ?thesis unfolding m by auto
qed

lemma shifted_offset:
  fixes x p C :: nat
  assumes "1 \<le> x" "x < C"
  shows "(x + p) mod C < C \<and> (x + p) mod C \<noteq> p mod C \<and> (x + p) mod C \<noteq> p"
proof -
  have C: "0 < C" using assms by simp
  have a: "(x + p) mod C < C" using C by simp
  have b: "(x + p) mod C \<noteq> p mod C"
  proof
    assume "(x + p) mod C = p mod C"
    then have "C dvd (x + p) - p" by (simp add: mod_eq_dvd_iff_nat)
    then have "C dvd x" by simp
    then show False using assms by (auto dest: dvd_imp_le)
  qed
  have c: "(x + p) mod C \<noteq> p"
  proof (cases "p < C")
    case True
    then show ?thesis using b by simp
  next
    case False
    then show ?thesis using a by simp
  qed
  from a b c show ?thesis by simp
qed

lemma batch_idxes_shape:
  assumes "batch_idxes self batch_size rnd = Inr idxes"
  shows "length idxes = nat batch_size \<and> (\<forall>row \<in> set idxes. length row = n_envs self)"
proof -
  have "length m = nat batch_size \<and> (\<forall>row \<in> set m. length row = n_envs self)"
    if "randint low high (nat batch_size) (n_envs self) rnd = Inr m" for low high m
    using randint_Inr [OF that] by simp
  with assms show ?thesis
    by (auto simp: batch_idxes_def split: if_splits sum.splits)
qed

text \<open>
  Claim C1. Whatever the state and the generator, when \<open>sample\<close> gets as far as drawing, the
  index matrix has \<open>batch_size\<close> rows of \<open>n_envs\<close> entries and no entry is the cursor: with
  \<open>full\<close> set the entries are residues below the capacity other than \<open>pos mod C\<close>, otherwise
  they are below \<open>pos\<close>.
\<close>

theorem sample_never_draws_pos:
  assumes "batch_idxes self batch_size rnd = Inr idxes"
  shows "length idxes = nat batch_size \<and>
         (\<forall>row \<in> set idxes. length row = n_envs self \<and>
            (\<forall>r \<in> set row. r \<noteq> pos self \<and>
               (if full self then r < buffer_size self \<and> r \<noteq> pos self mod buffer_size self
                else r < pos self)))"
proof (cases "full self")
  case True
  with assms obtain offs where
    r: "randint 1 (buffer_size self) (nat batch_size) (n_envs self) rnd = Inr offs"
    and ix: "idxes = map (map (\<lambda>x. (x + pos self) mod buffer_size self)) offs"
    by (auto simp: batch_idxes_def split: if_splits sum.splits)
  from randint_Inr [OF r] have len: "length offs = nat batch_size"
    and rows: "\<And>row. row \<in> set offs \<Longrightarrow> length row = n_envs self"
    and offs: "\<And>row x. row \<in> set offs \<Longrightarrow> x \<in> set row \<Longrightarrow> 1 \<le> x \<and> x < buffer_size self"
    by auto
  have "(x + pos self) mod buffer_size self \<noteq> pos self \<and>
        (x + pos self) mod buffer_size self < buffer_size self \<and>
        (x + pos self) mod buffer_size self \<noteq> pos self mod buffer_size self"
    if "row \<in> set offs" "x \<in> set row" for row x
    using shifted_offset [of x "buffer_size self" "pos self"] offs [OF that] by simp
  with len rows True show ?thesis unfolding ix by auto
next
  case False
  with assms have "randint 0 (pos self) (nat batch_size) (n_envs self) rnd = Inr idxes"
    by (auto simp: batch_idxes_def split: if_splits)
  from randint_Inr [OF this] False show ?thesis by auto
qed


theorem sample_never_draws_pos_witness:
  "batch_idxes scenario 3 row_number = Inr [[2], [3], [0]]
   \<and> full scenario \<and> pos scenario = 1 \<and> (2::nat) \<noteq> pos scenario \<and> (3::nat) \<noteq> pos scenario
   \<and> (0::nat) \<noteq> pos scenario"
proof -
  have h: "batch_idxes scenario 3 row_number = Inr [[2], [3], [0]]" by code_simp
  have s: "full scenario \<and> pos scenario = 1" by code_simp
  from sample_never_draws_pos [OF h] h s show ?thesis by simp
qed

subsection \<open>The minibatch\<close>

lemma pick_nth:
  "i < length rws \<Longrightarrow> j < length (rws ! i) \<Longrightarrow> j < length cols \<Longrightarrow>
     pick t rws cols ! i ! j = t ! (rws ! i ! j) ! (cols ! j)"
  by (simp add: pick_def)

lemma in_range_nth:
  assumes "in_range t rws cols" "i < length rws" "j < length (rws ! i)" "j < length cols"
  shows "rws ! i ! j < length t \<and> cols ! j < length (t ! (rws ! i ! j))"
proof -
  have "rws ! i \<in> set rws" using assms(2) by simp
  moreover have "(rws ! i ! j, cols ! j) \<in> set (zip (rws ! i) cols)"
    using assms(3,4) by (auto simp: in_set_zip)
  ultimately show ?thesis using assms(1) unfolding in_range_def by blast
qed

lemma get_samples_Inr:
  assumes "get_samples self idxes = Inr mb"
  obtains obs where
    "tensors (buf self) ''observations'' = Some obs"
    "0 < buffer_size self"
    "in_range obs (map (map (\<lambda>r. (r + 1) mod buffer_size self)) idxes) [0..<n_envs self]"
    "tensors mb ''next_obs'' =
       Some (pick obs (map (map (\<lambda>r. (r + 1) mod buffer_size self)) idxes) [0..<n_envs self])"
    "tensors mb ''observations'' = Some (pick obs idxes [0..<n_envs self])"
  using assms
  by (auto simp: get_samples_def td_gather_def td_get_def index_pairs_def
           split: sum.splits if_splits option.splits)

text \<open>
  Claim C2. In a successful \<open>sample\<close>, at every position \<open>(i, j)\<close> of the minibatch, where the
  row \<open>r = idxes[i][j]\<close> was drawn for column \<open>j\<close>, the field \<open>next_obs\<close> holds the stored
  \<open>observations\<close> at row \<open>(r + 1) mod C\<close>, column \<open>j\<close> (a cell that exists), next to the gathered
  \<open>observations\<close> of row \<open>r\<close>.
\<close>

theorem next_obs_is_shifted_observation:
  assumes idx: "batch_idxes self batch_size rnd = Inr idxes"
    and smp: "fst (sample self batch_size rnd) = Inr mb"
    and i: "i < nat batch_size" and j: "j < n_envs self"
  shows "\<exists>obs nxt cur.
           tensors (buf self) ''observations'' = Some obs \<and>
           tensors mb ''next_obs'' = Some nxt \<and>
           tensors mb ''observations'' = Some cur \<and>
           (idxes ! i ! j + 1) mod buffer_size self < length obs \<and>
           j < length (obs ! ((idxes ! i ! j + 1) mod buffer_size self)) \<and>
           nxt ! i ! j = obs ! ((idxes ! i ! j + 1) mod buffer_size self) ! j \<and>
           cur ! i ! j = obs ! (idxes ! i ! j) ! j"
proof -
  from smp idx have gs: "get_samples self idxes = Inr mb" by (simp add: sample_def)
  from batch_idxes_shape [OF idx] i have li: "i < length idxes"
    and lj: "length (idxes ! i) = n_envs self"
    by auto
  let ?f = "\<lambda>r. (r + 1) mod buffer_size self"
  let ?rws = "map (map ?f) idxes"
  from gs obtain obs where
    o: "tensors (buf self) ''observations'' = Some obs"
    and rng: "in_range obs ?rws [0..<n_envs self]"
    and nx: "tensors mb ''next_obs'' = Some (pick obs ?rws [0..<n_envs self])"
    and cu: "tensors mb ''observations'' = Some (pick obs idxes [0..<n_envs self])"
    by (rule get_samples_Inr)
  have r: "?rws ! i ! j = ?f (idxes ! i ! j)" using li lj j by simp
  from in_range_nth [OF rng, of i j] li lj j r
  have b: "?f (idxes ! i ! j) < length obs \<and> j < length (obs ! ?f (idxes ! i ! j))" by simp
  have n: "pick obs ?rws [0..<n_envs self] ! i ! j = obs ! ?f (idxes ! i ! j) ! j"
    using pick_nth [of i ?rws j "[0..<n_envs self]" obs] li lj j r by simp
  have c: "pick obs idxes [0..<n_envs self] ! i ! j = obs ! (idxes ! i ! j) ! j"
    using pick_nth [of i idxes j "[0..<n_envs self]" obs] li lj j by simp
  from o nx cu b n c show ?thesis by simp
qed

theorem next_obs_is_shifted_observation_witness:
  "batch_idxes scenario 3 row_number = Inr [[2], [3], [0]]
   \<and> \<not> isl (fst (sample scenario 3 row_number))
   \<and> tensors (buf scenario) ''observations'' = Some [[4], [1], [2], [3]]
   \<and> tensors (projr (fst (sample scenario 3 row_number))) ''next_obs'' = Some [[3], [4], [1]]"
proof -
  have h: "batch_idxes scenario 3 row_number = Inr [[2], [3], [0]]" by code_simp
  have n: "\<not> isl (fst (sample scenario 3 row_number))" by code_simp
  then have e: "fst (sample scenario 3 row_number) = Inr (projr (fst (sample scenario 3 row_number)))"
    by simp
  have i: "(2::nat) < nat 3" by simp
  have j: "0 < n_envs scenario" by code_simp
  have v: "tensors (buf scenario) ''observations'' = Some [[4], [1], [2], [3]]
     \<and> tensors (projr (fst (sample scenario 3 row_number))) ''next_obs'' = Some [[3], [4], [1]]"
    by code_simp
  from next_obs_is_shifted_observation [OF h e i j] h n v show ?thesis by simp
qed

subsection \<open>Sampling before any write\<close>

text \<open>
  Claim C8. On a buffer with \<open>pos = 0\<close> and \<open>full\<close> unset, \<open>sample\<close> with a batch size in
  \<open>(0, C]\<close> fails on the empty range \<open>[0, pos)\<close> and returns the state as it was.
\<close>

theorem sample_empty_buffer:
  assumes "shape (buf self) = [buffer_size self, n_envs self]"
    and "pos self = 0" and "\<not> full self"
    and "0 < batch_size" and "batch_size \<le> int (buffer_size self)"
  shows "sample self batch_size rnd = (Inl EmptyRangeError, self)"
  using assms by (simp add: sample_def batch_idxes_def randint_def)

theorem sample_empty_buffer_witness:
  "sample (init 4 1 :: int replay_buffer) 1 row_number = (Inl EmptyRangeError, init 4 1)"
  using sample_empty_buffer [of "init 4 1 :: int replay_buffer" 1 row_number]
  by (simp add: init_def)


subsection \<open>Payloads of the wrong shape\<close>

lemma length_two: "length xs = 2 \<Longrightarrow> \<exists>a b. xs = [a, b]"
  by (cases xs; cases "tl xs") auto

text \<open>
  Claim C6 says that every payload whose environment dimension is not \<open>E\<close> is refused. The
  source checks the number of batch dimensions only (line 78); the environment dimension
  meets the container's assignment of line 93, which expands a dimension of 1. A payload of
  shape \<open>[1, 1]\<close> is accepted by a buffer of two environments, its cell written to both
  columns of row 0.
\<close>

theorem add_broadcasts_single_column:
  "\<not> isl (add (init 4 2) (obs_payload 1 1 [[7::int]]))
   \<and> tensors (buf (projr (add (init 4 2) (obs_payload 1 1 [[7::int]])))) ''observations''
       = Some [[7, 7], [0, 0], [0, 0], [0, 0]]"
  by code_simp

text \<open>
  Claim C6, amended. \<open>add\<close> fails with a shape error when the payload has fewer than two batch
  dimensions, and, on a buffer of positive capacity, when its environment dimension is
  neither \<open>E\<close> nor 1; so a payload of two environments is refused by a buffer of one.
\<close>

theorem add_shape_error:
  assumes d: "as_tensordict d = Inr dat"
    and bad: "length (shape dat) < 2 \<or> (shape dat ! 1 \<noteq> n_envs self \<and> shape dat ! 1 \<noteq> 1)"
    and st: "length (shape dat) = 2 \<Longrightarrow>
               0 < buffer_size self \<and> shape (buf self) = [buffer_size self, n_envs self]"
  shows "add self d = Inl ShapeError"
proof (cases "length (shape dat) = 2")
  case False
  with d show ?thesis by (simp add: add_def)
next
  case True
  then obtain T E' where sh: "shape dat = [T, E']" by (auto dest: length_two)
  with bad have "E' \<noteq> n_envs self" "E' \<noteq> 1" by simp_all
  with sh st [OF True] d show ?thesis
    by (simp add: add_def td_setitem_def Let_def expandable_pair split: prod.splits)
qed

theorem add_shape_error_witness:
  "add (init 4 1) (obs_payload 1 2 [[1, 2::int]]) = Inl ShapeError"
  using add_shape_error [of "obs_payload 1 2 [[1, 2::int]]" _ "init 4 1"]
  by (simp add: as_tensordict_def obs_payload_def init_def)

subsection \<open>Payloads longer than the capacity\<close>





subsection \<open>A write after the buffer was filled\<close>

lemma zeros_length: "length (zeros [C, E] :: ('a::zero) tensor) = C"
  by (simp add: zeros_def)

lemma rows_ok_init: "rows_ok C (init C E)"
  by (simp add: rows_ok_def init_def)

lemma rows_ok_add:
  assumes r: "rows_ok C b" and sh: "shape (buf b) = [C, E]" and a: "add b d = Inr b'"
  shows "rows_ok C b'"
proof -
  from a obtain dat np idxes tb where
    st: "td_setitem (buf b) idxes dat = Inr tb"
    and b': "b' = b\<lparr>buf := tb, full := (buffer_size b \<le> pos b + shape dat ! 0 \<or> full b), pos := np\<rparr>"
    by (rule add_Inr)
  from st obtain v :: "'a tensordict" where tb: "tensors tb = (\<lambda>k. case tensors v k of None \<Rightarrow> tensors (buf b) k
        | Some rows \<Rightarrow> Some (write_rows idxes rows
             (case tensors (buf b) k of None \<Rightarrow> zeros (shape (buf b)) | Some old \<Rightarrow> old)))"
    by (rule td_setitem_tensors)
  show ?thesis
    unfolding rows_ok_def b' using r sh
    by (auto simp: tb rows_ok_def zeros_length split: option.splits)
qed

lemma rows_ok_adds:
  "rows_ok C b \<Longrightarrow> invariant C E b n \<Longrightarrow> adds b ds = Inr b' \<Longrightarrow> rows_ok C b'"
proof (induction ds arbitrary: b n)
  case Nil
  then show ?case by simp
next
  case (Cons d ds)
  from Cons.prems(3) obtain b1 where a: "add b d = Inr b1" and r: "adds b1 ds = Inr b'"
    by (auto split: sum.splits)
  have sh: "shape (buf b) = [C, E]" using Cons.prems(2) by (simp add: invariant_def)
  from Cons.IH [OF rows_ok_add [OF Cons.prems(1) sh a] invariant_add [OF Cons.prems(2) a] r]
  show ?case .
qed

lemma write_rows_prefix:
  assumes "length rows = k" "k \<le> length t"
  shows "(\<forall>i<k. write_rows [0..<k] rows t ! i = rows ! i) \<and>
         (\<forall>i. k \<le> i \<longrightarrow> write_rows [0..<k] rows t ! i = t ! i)"
proof -
  have "write_rows [0..<k] rows t ! i = rows ! i" if "i < k" for i
    using write_rows_at [of "[0..<k]" rows i t] that assms by simp
  moreover have "write_rows [0..<k] rows t ! i = t ! i" if "k \<le> i" for i
    using write_rows_other [of i "[0..<k]" rows t] that by simp
  ultimately show ?thesis by simp
qed

text \<open>
  Claim C4. After exactly \<open>C\<close> timesteps were written into a fresh buffer, \<open>add\<close> of a
  well-formed payload of \<open>k\<close> rows, \<open>0 < k < C\<close>, succeeds and leaves \<open>pos = k\<close>; every field of
  the payload then holds the payload's rows at the slots \<open>[0, k)\<close> and what it held before at
  the slots \<open>[k, C)\<close>, and every other field is as it was.
\<close>

theorem wraparound_write:
  assumes ads: "adds (init C E) ds = Inr b" and wr: "written ds = C"
    and wf: "wf_td dat" and sh: "shape dat = [k, E]" and k: "0 < k" "k < C"
  shows "\<exists>b'. add b (TensorDictData dat) = Inr b' \<and> pos b' = k \<and>
           (\<forall>f. case tensors dat f of
                   None \<Rightarrow> tensors (buf b') f = tensors (buf b) f
                 | Some rows \<Rightarrow>
                     (\<exists>new. tensors (buf b') f = Some new \<and> length new = C \<and>
                        (\<forall>i<k. new ! i = rows ! i) \<and>
                        (\<forall>i. k \<le> i \<and> i < C \<longrightarrow> new ! i = stored b f ! i)))"
proof -
  have C: "0 < C" using k by simp
  have ne: "ds \<noteq> []" using wr C by (auto simp: written_def)
  from adds_init_invariant [OF ads ne] wr have inv: "invariant C E b C" by simp
  from rows_ok_adds [OF rows_ok_init invariant_init [OF C] ads] have ro: "rows_ok C b" .
  from inv have bs: "buffer_size b = C" and sb: "shape (buf b) = [C, E]"
    and pm: "pos b mod C = 0" and pl: "pos b \<le> C"
    by (simp_all add: invariant_def)
  have p: "pos b = 0 \<or> pos b = C"
  proof (cases "pos b < C")
    case True
    with pm show ?thesis by simp
  next
    case False
    with pl show ?thesis by simp
  qed
  have ix: "add_idxes C (pos b) k = (k, [0..<k])"
    using p k by (auto simp: add_idxes_def Let_def)
  let ?tb = "(buf b)\<lparr>tensors := (\<lambda>f. case tensors dat f of None \<Rightarrow> tensors (buf b) f
        | Some v \<Rightarrow> Some (write_rows [0..<k] v
             (case tensors (buf b) f of None \<Rightarrow> zeros (shape (buf b)) | Some old \<Rightarrow> old)))\<rparr>"
  have st: "td_setitem (buf b) [0..<k] dat = Inr ?tb"
    using sh sb k by (simp add: td_setitem_def Let_def)
  let ?b' = "b\<lparr>buf := ?tb, full := (if C \<le> pos b + k then True else full b), pos := k\<rparr>"
  have a: "add b (TensorDictData dat) = Inr ?b'"
    using bs C sh ix st by (simp add: add_def as_tensordict_def Let_def)
  have fr: "case tensors dat f of
              None \<Rightarrow> tensors (buf ?b') f = tensors (buf b) f
            | Some rows \<Rightarrow>
                (\<exists>new. tensors (buf ?b') f = Some new \<and> length new = C \<and>
                   (\<forall>i<k. new ! i = rows ! i) \<and>
                   (\<forall>i. k \<le> i \<and> i < C \<longrightarrow> new ! i = stored b f ! i))" for f
  proof (cases "tensors dat f")
    case None
    then show ?thesis by simp
  next
    case (Some rows)
    with wf sh have lr: "length rows = k" by (auto simp: wf_td_def has_shape_def)
    have ls: "length (stored b f) = C"
      using ro sb by (auto simp: stored_def rows_ok_def zeros_length split: option.splits)
    from write_rows_prefix [OF lr, of "stored b f"] ls k
    have "(\<forall>i<k. write_rows [0..<k] rows (stored b f) ! i = rows ! i) \<and>
          (\<forall>i. k \<le> i \<longrightarrow> write_rows [0..<k] rows (stored b f) ! i = stored b f ! i)"
      by simp
    with Some ls show ?thesis by (simp add: stored_def)
  qed
  from a fr show ?thesis by (intro exI [of _ ?b']) simp
qed

theorem wraparound_write_witness:
  "\<not> isl (add filled (obs_payload 2 1 [[4], [5]]))
   \<and> pos filled = 4
   \<and> pos (projr (add filled (obs_payload 2 1 [[4], [5]]))) = 2
   \<and> tensors (buf (projr (add filled (obs_payload 2 1 [[4], [5]])))) ''observations''
       = Some [[4], [5], [2], [3]]"
proof -
  let ?ds = "[obs_payload 4 1 [[0::int], [1], [2], [3]]]"
  let ?dat = "\<lparr>shape = [2, 1], tensors = [''observations'' \<mapsto> [[4::int], [5]]]\<rparr>"
  have "\<not> isl (adds (init 4 1) ?ds)" by code_simp
  then have e: "adds (init 4 1) ?ds = Inr filled" by (simp add: filled_def)
  have w: "written ?ds = 4" by code_simp
  have wf: "wf_td ?dat" by (simp add: wf_td_def has_shape_def)
  have sh: "shape ?dat = [2, 1]" by simp
  have v: "\<not> isl (add filled (obs_payload 2 1 [[4], [5]]))
     \<and> pos filled = 4
     \<and> pos (projr (add filled (obs_payload 2 1 [[4], [5]]))) = 2
     \<and> tensors (buf (projr (add filled (obs_payload 2 1 [[4], [5]])))) ''observations''
         = Some [[4], [5], [2], [3]]"
    by code_simp
  have k: "(0::nat) < 2" "(2::nat) < 4" by simp_all
  from wraparound_write [OF e w wf sh k] v show ?thesis by simp
qed

subsection \<open>Keys that are not strings\<close>

lemma getitem_not_string: "\<forall>s. k \<noteq> KStr s \<Longrightarrow> getitem self k = (Inl TypeError, self)"
  by (cases k) (simp_all add: getitem_def)

text \<open>
  Claim C9 holds for \<open>getitem\<close>, by the lemma above. \<open>setitem\<close> has no check of its own: with
  the one-element tuple \<open>(''observations'',)\<close>, which \<open>getitem\<close> refuses, it stores the value.
\<close>

theorem setitem_accepts_tuple_key:
  "fst (getitem (init 2 1 :: int replay_buffer) (KTuple1 ''observations'')) = Inl TypeError
   \<and> \<not> isl (setitem (init 2 1) (KTuple1 ''observations'') [[5], [7::int]])
   \<and> tensors (buf (projr (setitem (init 2 1) (KTuple1 ''observations'') [[5], [7::int]])))
         ''observations'' = Some [[5], [7]]"
  by code_simp


end
